theory Spec2Isabelle
  imports Main "HOL-Library.Word"
begin

section \<open>The ABI coder dispatcher (packages/abi/src.ts/abi-coder.ts)\<close>

subsection \<open>Data model\<close>

text \<open>
  A \<open>ParamType\<close> (declared in \<open>fragments\<close>) is read by the dispatcher through the
  fields \<open>name\<close>, \<open>type\<close>, \<open>baseType\<close>, \<open>arrayLength\<close>, \<open>arrayChildren\<close> and
  \<open>components\<close>. The last two may be absent (\<open>null\<close>), which is \<open>None\<close> here.
\<close>

datatype ParamType = ParamType
  (name: string)
  (type: string)
  (baseType: string)
  (arrayLength: int)
  (arrayChildren: "ParamType option")
  (components: "ParamType list option")

text \<open>
  A JavaScript number as far as the dispatcher produces one: \<open>parseInt\<close> of a string of
  decimal digits is that number, and \<open>parseInt\<close> of the empty string is \<open>NaN\<close>.
\<close>

datatype jsnum = NaN | Num nat

text \<open>
  The coder classes, one constructor per class, with the constructor arguments in the order
  of the source.
\<close>

datatype Coder =
    AddressCoder string
  | BooleanCoder string
  | StringCoder string
  | BytesCoder string
  | ArrayCoder Coder int string
  | TupleCoder "Coder list" string
  | NullCoder string
  | NumberCoder nat bool string
  | FixedBytesCoder jsnum string

text \<open>
  \<open>errors.throwError (message, code, params)\<close> raises an error carrying the code and the
  message. \<open>TypeError\<close> is the runtime's error for reading a property of \<open>null\<close>.
\<close>

datatype error =
    INVALID_ARGUMENT string
  | NUMERIC_FAULT string
  | BUFFER_OVERRUN string
  | TypeError

subsection \<open>The two regular expressions\<close>

definition isDigit :: "char \<Rightarrow> bool" where
  "isDigit c = (c \<in> set ''0123456789'')"

text \<open>\<open>/^(u?int)([0-9]*)$/\<close>: the two groups of a match, or \<open>None\<close>.\<close>

definition paramTypeNumber :: "string \<Rightarrow> (string \<times> string) option" where
  "paramTypeNumber s =
     (if take 4 s = ''uint'' \<and> list_all isDigit (drop 4 s) then Some (''uint'', drop 4 s)
      else if take 3 s = ''int'' \<and> list_all isDigit (drop 3 s) then Some (''int'', drop 3 s)
      else None)"

text \<open>\<open>/^bytes([0-9]*)$/\<close>: the group of a match, or \<open>None\<close>.\<close>

definition paramTypeBytes :: "string \<Rightarrow> string option" where
  "paramTypeBytes s =
     (if take 5 s = ''bytes'' \<and> list_all isDigit (drop 5 s) then Some (drop 5 s) else None)"

subsection \<open>parseInt on strings of digits\<close>

definition digitVal :: "char \<Rightarrow> nat" where
  "digitVal c = of_char c - 48"

definition decimal :: "string \<Rightarrow> nat" where
  "decimal ds = foldl (\<lambda>a c. 10 * a + digitVal c) 0 ds"

text \<open>
  Both regular expressions hand \<open>parseInt\<close> a string of decimal digits only. The result is
  a double in the source; the dispatcher only compares it with 0, 32 and 256 and takes it
  modulo 8 and divides it by 8 when it is at most 256, where doubles are exact, and rounding a
  larger integer to a double never brings it down to 256.
\<close>

definition parseInt :: "string \<Rightarrow> jsnum" where
  "parseInt ds = (if ds = [] then NaN else Num (decimal ds))"

subsection \<open>Resolution of a type descriptor\<close>

text \<open>
  The \<open>switch\<close> on \<open>baseType\<close> comes first; then the two regular expressions on
  \<open>type\<close>, each \<open>if (match)\<close> ending in a \<open>throw\<close> or a \<open>return\<close>. For \<open>NaN\<close> the
  tests \<open>size === 0\<close> and \<open>size > n\<close> are false and \<open>(size % 8) !== 0\<close> is true.
  \<open>map\<close> resolves the components from left to right and the first failure is thrown.
  Resolving an absent \<open>arrayChildren\<close> reads \<open>baseType\<close> of \<open>null\<close>.
\<close>

fun getCoder :: "ParamType \<Rightarrow> error + Coder"
  and getCoders :: "ParamType list \<Rightarrow> error + Coder list" where
  "getCoder (ParamType nm ty bt alen ach comps) =
     (if bt = ''address'' then Inr (AddressCoder nm)
      else if bt = ''bool'' then Inr (BooleanCoder nm)
      else if bt = ''string'' then Inr (StringCoder nm)
      else if bt = ''bytes'' then Inr (BytesCoder nm)
      else if bt = ''array'' then
        (case ach of
           None \<Rightarrow> Inl TypeError
         | Some child \<Rightarrow>
             (case getCoder child of
                Inl e \<Rightarrow> Inl e
              | Inr c \<Rightarrow> Inr (ArrayCoder c alen nm)))
      else if bt = ''tuple'' then
        (case comps of
           None \<Rightarrow> Inr (TupleCoder [] nm)
         | Some cs \<Rightarrow>
             (case getCoders cs of
                Inl e \<Rightarrow> Inl e
              | Inr coders \<Rightarrow> Inr (TupleCoder coders nm)))
      else if bt = [] then Inr (NullCoder nm)
      else
        (case paramTypeNumber ty of
           Some (sign, digits) \<Rightarrow>
             (case parseInt (if digits = [] then ''256'' else digits) of
                NaN \<Rightarrow> Inl (INVALID_ARGUMENT (''invalid '' @ sign @ '' bit length''))
              | Num sz \<Rightarrow>
                  if sz = 0 \<or> sz > 256 \<or> sz mod 8 \<noteq> 0
                  then Inl (INVALID_ARGUMENT (''invalid '' @ sign @ '' bit length''))
                  else Inr (NumberCoder (sz div 8) (sign = ''int'') nm))
         | None \<Rightarrow>
             (case paramTypeBytes ty of
                Some digits \<Rightarrow>
                  (case parseInt digits of
                     NaN \<Rightarrow> Inr (FixedBytesCoder NaN nm)
                   | Num sz \<Rightarrow>
                       if sz = 0 \<or> sz > 32
                       then Inl (INVALID_ARGUMENT ''invalid bytes length'')
                       else Inr (FixedBytesCoder (Num sz) nm))
              | None \<Rightarrow> Inl (INVALID_ARGUMENT ''invalid type''))))"
| "getCoders [] = Inr []"
| "getCoders (p # ps) =
     (case getCoder p of
        Inl e \<Rightarrow> Inl e
      | Inr c \<Rightarrow> (case getCoders ps of Inl e \<Rightarrow> Inl e | Inr cs \<Rightarrow> Inr (c # cs)))"

subsection \<open>The two entry points\<close>

definition getWordSize :: nat where
  "getWordSize = 32"

text \<open>The dispatcher object holds the optional coercion hook (\<open>coerceFunc || null\<close>).\<close>

record 'v AbiCoder =
  coerceFunc :: "(string \<Rightarrow> 'v \<Rightarrow> 'v) option"

text \<open>
  The coder classes, \<open>Writer\<close> and \<open>Reader\<close> live in other files. The dispatcher is
  therefore given what it calls on them:
  \<^item> \<open>coderEncode w c vs\<close> stands for \<open>coder.encode (writer, values)\<close> on a fresh
    \<open>Writer\<close> of word size \<open>w\<close>, followed by \<open>writer.data\<close>;
  \<^item> \<open>coderDecode w f c data\<close> stands for \<open>coder.decode\<close> on a fresh \<open>Reader\<close> over
    \<open>data\<close> with word size \<open>w\<close> and coercion hook \<open>f\<close>.

  Type lists hold descriptors: \<open>ParamType.from\<close> returns a descriptor as it is, and the
  parsing of type strings is outside this file. \<open>arrayify\<close> hands the bytes on.
\<close>

definition encode ::
  "(nat \<Rightarrow> Coder \<Rightarrow> 'v list \<Rightarrow> error + 'b) \<Rightarrow> ParamType list \<Rightarrow> 'v list \<Rightarrow> error + 'b" where
  "encode coderEncode types values =
     (if length types \<noteq> length values
      then Inl (INVALID_ARGUMENT ''types/values length mismatch'')
      else
        (case getCoders types of
           Inl e \<Rightarrow> Inl e
         | Inr coders \<Rightarrow> coderEncode getWordSize (TupleCoder coders ''_'') values))"

definition decode ::
  "(nat \<Rightarrow> (string \<Rightarrow> 'v \<Rightarrow> 'v) option \<Rightarrow> Coder \<Rightarrow> 'b \<Rightarrow> error + 'r) \<Rightarrow>
   'v AbiCoder \<Rightarrow> ParamType list \<Rightarrow> 'b \<Rightarrow> error + 'r" where
  "decode coderDecode this types data =
     (case getCoders types of
        Inl e \<Rightarrow> Inl e
      | Inr coders \<Rightarrow> coderDecode getWordSize (coerceFunc this) (TupleCoder coders ''_'') data)"

text \<open>The base kinds that the \<open>switch\<close> handles.\<close>

definition namedBaseTypes :: "string set" where
  "namedBaseTypes = {''address'', ''bool'', ''string'', ''bytes'', ''array'', ''tuple'', []}"

section \<open>The coders, the writer and the reader\<close>

text \<open>
  The format is over bytes; a buffer is a list of bytes.
\<close>

type_synonym byte = "8 word"
type_synonym bytes = "byte list"

text \<open>
  Modelled from the spec: the values that the coder classes (not in this file) encode and
  decode. An address is its 20 bytes, a string its sequence of characters, a tuple and an array
  the ordered sequence of their members, and the value of the empty type is \<open>VNull\<close>.
\<close>

datatype Value =
    VNumber int
  | VBool bool
  | VAddress bytes
  | VBytes bytes
  | VString string
  | VArray "Value list"
  | VNull

text \<open>
  Modelled from the spec: the big-endian bytes of a number written by \<open>Writer\<close> (not in
  this file): \<open>toBytesBE k n\<close> is the \<open>k\<close> low-order bytes of \<open>n\<close>, most significant first.
\<close>

primrec toBytesBE :: "nat \<Rightarrow> nat \<Rightarrow> bytes" where
  "toBytesBE 0 n = []"
| "toBytesBE (Suc k) n = toBytesBE k (n div 256) @ [of_nat (n mod 256)]"

text \<open>
  Modelled from the spec: the number that \<open>Reader\<close> (not in this file) reads from
  big-endian bytes.
\<close>

definition fromBytesBE :: "bytes \<Rightarrow> nat" where
  "fromBytesBE bs = foldl (\<lambda>a b. 256 * a + unat b) 0 bs"

text \<open>
  Modelled from the spec: a length, a count or an offset as one 32-byte word of \<open>Writer\<close>
  (not in this file). A number that does not fit a word has no encoding.
\<close>

definition toWord :: "nat \<Rightarrow> error + bytes" where
  "toWord n =
     (if n < 2 ^ 256 then Inr (toBytesBE 32 n) else Inl (NUMERIC_FAULT ''value out of range''))"

text \<open>
  Modelled from the spec: the zero bytes that \<open>appendPadded\<close> of \<open>Writer\<close> (not in this
  file) adds after \<open>n\<close> bytes to reach the next multiple of 32.
\<close>

definition padding :: "nat \<Rightarrow> nat" where
  "padding n = (32 - n mod 32) mod 32"

text \<open>
  Modelled from the spec: the raw bytes of a string value, one byte per character (the
  conversion between strings and bytes is a utility outside this file).
\<close>

definition toByte :: "char \<Rightarrow> byte" where
  "toByte c = of_nat (of_char c)"

text \<open>
  Modelled from the spec: the character of a raw byte of a decoded string.
\<close>

definition fromByte :: "byte \<Rightarrow> char" where
  "fromByte b = char_of (unat b)"

text \<open>
  Modelled from the spec: the static/dynamic classification that every coder class (not in
  this file) reports. \<open>string\<close> and \<open>bytes\<close> are dynamic; an array is dynamic if its length
  is variable (\<open>- 1\<close>) or its element coder is dynamic; a tuple is dynamic if a component is.
\<close>

fun dynamic :: "Coder \<Rightarrow> bool" where
  "dynamic (StringCoder nm) = True"
| "dynamic (BytesCoder nm) = True"
| "dynamic (ArrayCoder c len nm) = (len = - 1 \<or> dynamic c)"
| "dynamic (TupleCoder cs nm) = (\<exists>c \<in> set cs. dynamic c)"
| "dynamic _ = False"

text \<open>
  Modelled from the spec: \<open>appendWord\<close> of \<open>Writer\<close> (not in this file). A writer is the
  bytes appended so far.
\<close>

definition appendWord :: "bytes \<Rightarrow> bytes \<Rightarrow> bytes" where
  "appendWord w word = w @ word"

text \<open>
  Modelled from the spec: \<open>appendPadded\<close> of \<open>Writer\<close> (not in this file): the raw bytes,
  then zero bytes up to the next multiple of 32.
\<close>

definition appendPadded :: "bytes \<Rightarrow> bytes \<Rightarrow> bytes" where
  "appendPadded w bs = w @ bs @ replicate (padding (length bs)) 0"

text \<open>
  Modelled from the spec: the size of the head region of a composite (the head/tail algorithm
  of the tuple and array coders, not in this file). A member is its classification and its
  encoding; a static member is inline in its head slot, a dynamic member has a one-word slot.
\<close>

fun headSize :: "(bool \<times> bytes) list \<Rightarrow> nat" where
  "headSize [] = 0"
| "headSize ((dyn, bs) # ms) = (if dyn then 32 else length bs) + headSize ms"

text \<open>
  Modelled from the spec: the head region of a composite. The slot of a dynamic member holds
  \<open>off\<close>, the distance from the start of the composite to the start of the tail segment of
  that member; tail segments follow the head in the order of the members. The offsets, known
  only once the head is sized, are computed here from \<open>headSize\<close> instead of being patched
  into reserved slots.
\<close>

fun packHeads :: "nat \<Rightarrow> (bool \<times> bytes) list \<Rightarrow> error + bytes" where
  "packHeads off [] = Inr []"
| "packHeads off ((dyn, bs) # ms) =
     (if dyn then
        (case toWord off of
           Inl e \<Rightarrow> Inl e
         | Inr w \<Rightarrow>
             (case packHeads (off + length bs) ms of
                Inl e \<Rightarrow> Inl e
              | Inr hs \<Rightarrow> Inr (w @ hs)))
      else
        (case packHeads off ms of
           Inl e \<Rightarrow> Inl e
         | Inr hs \<Rightarrow> Inr (bs @ hs)))"

text \<open>
  Modelled from the spec: the tail region of a composite, the encodings of its dynamic
  members in order.
\<close>

definition packTails :: "(bool \<times> bytes) list \<Rightarrow> bytes" where
  "packTails ms = concat (map snd (filter fst ms))"

text \<open>
  Modelled from the spec: the encoding of a sequence of members, the head region followed by
  the tail region (head/tail algorithm of the composite coders, not in this file).
\<close>

definition pack :: "(bool \<times> bytes) list \<Rightarrow> error + bytes" where
  "pack ms =
     (case packHeads (headSize ms) ms of
        Inl e \<Rightarrow> Inl e
      | Inr hs \<Rightarrow> Inr (hs @ packTails ms))"

text \<open>
  Modelled from the spec: the encoding of \<open>string\<close> and \<open>bytes\<close> values (coders not in
  this file): one word holding the byte length, then the bytes padded to a multiple of 32.
\<close>

definition encodeDynamicBytes :: "bytes \<Rightarrow> error + bytes" where
  "encodeDynamicBytes bs =
     (case toWord (length bs) of
        Inl e \<Rightarrow> Inl e
      | Inr w \<Rightarrow> Inr (appendPadded (appendWord [] w) bs))"

text \<open>
  Modelled from the spec: the range of a fixed-width integer coder (not in this file) of
  byte width \<open>w\<close>: \<open>[0, 2^(8w) - 1]\<close> unsigned, \<open>[- 2^(8w-1), 2^(8w-1) - 1]\<close> signed.
\<close>

definition inRange :: "nat \<Rightarrow> bool \<Rightarrow> int \<Rightarrow> bool" where
  "inRange w sg v =
     (if sg then - (2 ^ (8 * w - 1)) \<le> v \<and> v \<le> 2 ^ (8 * w - 1) - 1
      else 0 \<le> v \<and> v \<le> 2 ^ (8 * w) - 1)"

text \<open>
  Modelled from the spec: the word of a fixed-width integer (coder not in this file): the
  \<open>w\<close> low-order bytes in two's complement, sign-extended with all-ones bytes for a negative
  value and zero-extended otherwise.
\<close>

definition encodeNumber :: "nat \<Rightarrow> int \<Rightarrow> bytes" where
  "encodeNumber w v =
     replicate (32 - w) (if v < 0 then 255 else 0) @ toBytesBE w (nat (v mod 2 ^ (8 * w)))"

text \<open>
  Modelled from the spec: \<open>encode\<close> of each coder class (not in this file). A value that is
  not of the kind of the coder is a \<open>TypeError\<close>, an integer outside the range a numeric
  fault. A fixed-length array takes exactly as many elements as its length, a tuple exactly
  as many as it has components; a variable-length array writes its count first and then its
  elements as a sequence of that many members.
\<close>

fun encodeC :: "Coder \<Rightarrow> Value \<Rightarrow> error + bytes"
  and encodeAll :: "Coder list \<Rightarrow> Value list \<Rightarrow> error + (bool \<times> bytes) list" where
  "encodeC (AddressCoder nm) v =
     (case v of
        VAddress a \<Rightarrow> if length a = 20 then Inr (replicate 12 0 @ a) else Inl TypeError
      | _ \<Rightarrow> Inl TypeError)"
| "encodeC (BooleanCoder nm) v =
     (case v of
        VBool b \<Rightarrow> toWord (if b then 1 else 0)
      | _ \<Rightarrow> Inl TypeError)"
| "encodeC (NumberCoder w sg nm) v =
     (case v of
        VNumber i \<Rightarrow>
          if inRange w sg i then Inr (encodeNumber w i)
          else Inl (NUMERIC_FAULT ''value out of range'')
      | _ \<Rightarrow> Inl TypeError)"
| "encodeC (FixedBytesCoder NaN nm) v = Inl TypeError"
| "encodeC (FixedBytesCoder (Num n) nm) v =
     (case v of
        VBytes bs \<Rightarrow> if length bs = n then Inr (bs @ replicate (32 - n) 0) else Inl TypeError
      | _ \<Rightarrow> Inl TypeError)"
| "encodeC (NullCoder nm) v =
     (case v of
        VNull \<Rightarrow> Inr []
      | _ \<Rightarrow> Inl TypeError)"
| "encodeC (StringCoder nm) v =
     (case v of
        VString s \<Rightarrow> encodeDynamicBytes (map toByte s)
      | _ \<Rightarrow> Inl TypeError)"
| "encodeC (BytesCoder nm) v =
     (case v of
        VBytes bs \<Rightarrow> encodeDynamicBytes bs
      | _ \<Rightarrow> Inl TypeError)"
| "encodeC (ArrayCoder c len nm) v =
     (case v of
        VArray vs \<Rightarrow>
          if len = - 1 then
            (case toWord (length vs) of
               Inl e \<Rightarrow> Inl e
             | Inr w \<Rightarrow>
                 (case encodeAll (replicate (length vs) c) vs of
                    Inl e \<Rightarrow> Inl e
                  | Inr ms \<Rightarrow> (case pack ms of Inl e \<Rightarrow> Inl e | Inr bs \<Rightarrow> Inr (w @ bs))))
          else if int (length vs) = len then
            (case encodeAll (replicate (length vs) c) vs of
               Inl e \<Rightarrow> Inl e
             | Inr ms \<Rightarrow> pack ms)
          else Inl TypeError
      | _ \<Rightarrow> Inl TypeError)"
| "encodeC (TupleCoder cs nm) v =
     (case v of
        VArray vs \<Rightarrow>
          (case encodeAll cs vs of
             Inl e \<Rightarrow> Inl e
           | Inr ms \<Rightarrow> pack ms)
      | _ \<Rightarrow> Inl TypeError)"
| "encodeAll [] [] = Inr []"
| "encodeAll (c # cs) (v # vs) =
     (case encodeC c v of
        Inl e \<Rightarrow> Inl e
      | Inr bs \<Rightarrow>
          (case encodeAll cs vs of
             Inl e \<Rightarrow> Inl e
           | Inr ms \<Rightarrow> Inr ((dynamic c, bs) # ms)))"
| "encodeAll _ _ = Inl TypeError"

text \<open>
  Modelled from the spec: what the dispatcher calls for encoding: \<open>encode\<close> of the coder
  on a fresh \<open>Writer\<close>, then the data of that writer. The word size of the format is always 32.
\<close>

definition specEncode :: "nat \<Rightarrow> Coder \<Rightarrow> Value list \<Rightarrow> error + bytes" where
  "specEncode wordSize coder values = encodeC coder (VArray values)"

text \<open>
  Modelled from the spec: \<open>Reader\<close> (not in this file): the buffer, the base that offsets
  are relative to, and the cursor.
\<close>

record Reader =
  data :: bytes
  base :: nat
  offset :: nat

text \<open>
  Modelled from the spec: \<open>readWord\<close> of \<open>Reader\<close> (not in this file): the next 32 bytes,
  or a buffer overrun if fewer remain.
\<close>

definition readWord :: "Reader \<Rightarrow> error + bytes \<times> Reader" where
  "readWord r =
     (if offset r + 32 \<le> length (data r)
      then Inr (take 32 (drop (offset r) (data r)), r\<lparr>offset := offset r + 32\<rparr>)
      else Inl (BUFFER_OVERRUN ''out of bounds''))"

text \<open>
  Modelled from the spec: \<open>readBytes\<close> of \<open>Reader\<close> (not in this file): the next \<open>n\<close>
  bytes, advancing to the next word boundary, or a buffer overrun.
\<close>

definition readBytes :: "nat \<Rightarrow> Reader \<Rightarrow> error + bytes \<times> Reader" where
  "readBytes n r =
     (if offset r + (n + padding n) \<le> length (data r)
      then Inr (take n (drop (offset r) (data r)), r\<lparr>offset := offset r + (n + padding n)\<rparr>)
      else Inl (BUFFER_OVERRUN ''out of bounds''))"

text \<open>
  Modelled from the spec: \<open>subReaderAt\<close> of \<open>Reader\<close> (not in this file): an independent
  cursor at an offset from the base of the reader.
\<close>

definition subReaderAt :: "Reader \<Rightarrow> nat \<Rightarrow> Reader" where
  "subReaderAt r byteOffset = r\<lparr>base := base r + byteOffset, offset := base r + byteOffset\<rparr>"

text \<open>
  Modelled from the spec: \<open>coerce\<close> of \<open>Reader\<close> (not in this file): the hook applied to
  the type name and the raw value, or the raw value when there is no hook.
\<close>

definition coerce :: "(string \<Rightarrow> Value \<Rightarrow> Value) option \<Rightarrow> string \<Rightarrow> Value \<Rightarrow> Value" where
  "coerce f typeName v = (case f of None \<Rightarrow> v | Some g \<Rightarrow> g typeName v)"

text \<open>
  Modelled from the spec: the decimal digits of a width in the type name given to the hook.
\<close>

fun showNat :: "nat \<Rightarrow> string" where
  "showNat n =
     (if n < 10 then [char_of (48 + n)] else showNat (n div 10) @ [char_of (48 + n mod 10)])"

text \<open>
  Modelled from the spec: the decoding of \<open>string\<close> and \<open>bytes\<close> values (coders not in
  this file): the length word, then that many bytes.
\<close>

definition decodeDynamicBytes :: "Reader \<Rightarrow> error + bytes \<times> Reader" where
  "decodeDynamicBytes r =
     (case readWord r of
        Inl e \<Rightarrow> Inl e
      | Inr (w, r') \<Rightarrow> readBytes (fromBytesBE w) r')"

text \<open>
  Modelled from the spec: the integer of a word (fixed-width integer coder, not in this file):
  signed, the \<open>w\<close> low-order bytes sign-extended on bit \<open>8w - 1\<close>; unsigned, the word as a
  non-negative integer.
\<close>

definition decodeNumber :: "nat \<Rightarrow> bool \<Rightarrow> bytes \<Rightarrow> int" where
  "decodeNumber w sg word =
     (if sg then
        (let x = int (fromBytesBE (drop (32 - w) word)) in
         if x \<ge> 2 ^ (8 * w - 1) then x - 2 ^ (8 * w) else x)
      else int (fromBytesBE word))"

text \<open>
  The nesting depth of a coder, the measure by which decoding terminates.
\<close>

fun depth :: "Coder \<Rightarrow> nat" where
  "depth (ArrayCoder c len nm) = Suc (depth c)"
| "depth (TupleCoder cs nm) = Suc (foldr max (map depth cs) 0)"
| "depth _ = 0"

text \<open>
  Modelled from the spec: \<open>decode\<close> of each coder class (not in this file). The address
  coder is strict. A composite decodes its static members at the cursor and follows the
  offset in the head slot of a dynamic member with a sub-reader relative to its own start;
  a variable-length array reads its count first.
\<close>

function decodeC ::
    "(string \<Rightarrow> Value \<Rightarrow> Value) option \<Rightarrow> Coder \<Rightarrow> Reader \<Rightarrow> error + Value \<times> Reader"
  and decodeMembers ::
    "(string \<Rightarrow> Value \<Rightarrow> Value) option \<Rightarrow> Coder list \<Rightarrow> Reader \<Rightarrow> Reader \<Rightarrow>
       error + Value list \<times> Reader" where
  "decodeC f (AddressCoder nm) r =
     (case readWord r of
        Inl e \<Rightarrow> Inl e
      | Inr (w, r') \<Rightarrow>
          if take 12 w = replicate 12 0
          then Inr (coerce f ''address'' (VAddress (drop 12 w)), r')
          else Inl (INVALID_ARGUMENT ''invalid address''))"
| "decodeC f (BooleanCoder nm) r =
     (case readWord r of
        Inl e \<Rightarrow> Inl e
      | Inr (w, r') \<Rightarrow> Inr (coerce f ''bool'' (VBool (fromBytesBE w \<noteq> 0)), r'))"
| "decodeC f (NumberCoder w sg nm) r =
     (case readWord r of
        Inl e \<Rightarrow> Inl e
      | Inr (word, r') \<Rightarrow>
          Inr (coerce f ((if sg then ''int'' else ''uint'') @ showNat (8 * w))
                 (VNumber (decodeNumber w sg word)), r'))"
| "decodeC f (FixedBytesCoder NaN nm) r = Inl TypeError"
| "decodeC f (FixedBytesCoder (Num n) nm) r =
     (case readWord r of
        Inl e \<Rightarrow> Inl e
      | Inr (w, r') \<Rightarrow> Inr (coerce f (''bytes'' @ showNat n) (VBytes (take n w)), r'))"
| "decodeC f (NullCoder nm) r = Inr (VNull, r)"
| "decodeC f (StringCoder nm) r =
     (case decodeDynamicBytes r of
        Inl e \<Rightarrow> Inl e
      | Inr (bs, r') \<Rightarrow> Inr (coerce f ''string'' (VString (map fromByte bs)), r'))"
| "decodeC f (BytesCoder nm) r =
     (case decodeDynamicBytes r of
        Inl e \<Rightarrow> Inl e
      | Inr (bs, r') \<Rightarrow> Inr (coerce f ''bytes'' (VBytes bs), r'))"
| "decodeC f (ArrayCoder c len nm) r =
     (if len = - 1 then
        (case readWord r of
           Inl e \<Rightarrow> Inl e
         | Inr (w, r') \<Rightarrow>
             (case decodeMembers f (replicate (fromBytesBE w) c)
                     (subReaderAt r' (offset r' - base r')) r' of
                Inl e \<Rightarrow> Inl e
              | Inr (vs, r'') \<Rightarrow> Inr (VArray vs, r'')))
      else if 0 \<le> len then
        (case decodeMembers f (replicate (nat len) c) (subReaderAt r (offset r - base r)) r of
           Inl e \<Rightarrow> Inl e
         | Inr (vs, r') \<Rightarrow> Inr (VArray vs, r'))
      else Inl TypeError)"
| "decodeC f (TupleCoder cs nm) r =
     (case decodeMembers f cs (subReaderAt r (offset r - base r)) r of
        Inl e \<Rightarrow> Inl e
      | Inr (vs, r') \<Rightarrow> Inr (VArray vs, r'))"
| "decodeMembers f [] b r = Inr ([], r)"
| "decodeMembers f (c # cs) b r =
     (if dynamic c then
        (case readWord r of
           Inl e \<Rightarrow> Inl e
         | Inr (w, r') \<Rightarrow>
             (case decodeC f c (subReaderAt b (fromBytesBE w)) of
                Inl e \<Rightarrow> Inl e
              | Inr (v, r0) \<Rightarrow>
                  (case decodeMembers f cs b r' of
                     Inl e \<Rightarrow> Inl e
                   | Inr (vs, r'') \<Rightarrow> Inr (v # vs, r''))))
      else
        (case decodeC f c r of
           Inl e \<Rightarrow> Inl e
         | Inr (v, r') \<Rightarrow>
             (case decodeMembers f cs b r' of
                Inl e \<Rightarrow> Inl e
              | Inr (vs, r'') \<Rightarrow> Inr (v # vs, r''))))"
  by pat_completeness auto

termination
proof -
  have rep: "(max d ^^ n) 0 \<le> d" for d n :: nat
    by (induction n) auto
  show ?thesis
    by (relation "inv_image (less_than <*lex*> less_than)
          (\<lambda>x. case x of
             Inl (f, c, r) \<Rightarrow> (depth c, 0)
           | Inr (f, cs, b, r) \<Rightarrow> (foldr max (map depth cs) 0, Suc (length cs)))")
       (auto simp: less_Suc_eq_le rep)
qed

text \<open>
  Modelled from the spec: what the dispatcher calls for decoding: \<open>decode\<close> of the coder on
  a fresh \<open>Reader\<close> over the data.
\<close>

definition specDecode ::
  "nat \<Rightarrow> (string \<Rightarrow> Value \<Rightarrow> Value) option \<Rightarrow> Coder \<Rightarrow> bytes \<Rightarrow> error + Value" where
  "specDecode wordSize f coder bs =
     (case decodeC f coder \<lparr>data = bs, base = 0, offset = 0\<rparr> of
        Inl e \<Rightarrow> Inl e
      | Inr (v, r) \<Rightarrow> Inr v)"

section \<open>Valid coders and valid values\<close>

text \<open>
  The coders that resolution can build: the byte width of a number coder is between 1 and 32
  and so is the size of a fixed-size byte coder, as the checks of the dispatcher ensure. (The
  fixed-size byte coder of size \<open>NaN\<close> is among them; no value encodes with it.)
\<close>

fun wfCoder :: "Coder \<Rightarrow> bool" where
  "wfCoder (NumberCoder w sg nm) = (1 \<le> w \<and> w \<le> 32)"
| "wfCoder (FixedBytesCoder (Num n) nm) = (1 \<le> n \<and> n \<le> 32)"
| "wfCoder (ArrayCoder c len nm) = wfCoder c"
| "wfCoder (TupleCoder cs nm) = list_all wfCoder cs"
| "wfCoder _ = True"




section \<open>Properties of the dispatcher\<close>

subsection \<open>Resolution\<close>

lemma paramTypeNumber_uint: "list_all isDigit ds \<Longrightarrow> paramTypeNumber (''uint'' @ ds) = Some (''uint'', ds)"
  by (simp add: paramTypeNumber_def)

lemma paramTypeNumber_int: "list_all isDigit ds \<Longrightarrow> paramTypeNumber (''int'' @ ds) = Some (''int'', ds)"
  by (simp add: paramTypeNumber_def)

lemma paramTypeNumber_bytes: "paramTypeNumber (''bytes'' @ ds) = None"
  by (simp add: paramTypeNumber_def)

lemma paramTypeBytes_bytes: "list_all isDigit ds \<Longrightarrow> paramTypeBytes (''bytes'' @ ds) = Some ds"
  by (simp add: paramTypeBytes_def)

lemma getCoder_unnamed:
  "bt \<notin> namedBaseTypes \<Longrightarrow> getCoder (ParamType nm ty bt alen ach comps) =
        (case paramTypeNumber ty of
           Some (sign, digits) \<Rightarrow>
             (case parseInt (if digits = [] then ''256'' else digits) of
                NaN \<Rightarrow> Inl (INVALID_ARGUMENT (''invalid '' @ sign @ '' bit length''))
              | Num sz \<Rightarrow>
                  if sz = 0 \<or> sz > 256 \<or> sz mod 8 \<noteq> 0
                  then Inl (INVALID_ARGUMENT (''invalid '' @ sign @ '' bit length''))
                  else Inr (NumberCoder (sz div 8) (sign = ''int'') nm))
         | None \<Rightarrow>
             (case paramTypeBytes ty of
                Some digits \<Rightarrow>
                  (case parseInt digits of
                     NaN \<Rightarrow> Inr (FixedBytesCoder NaN nm)
                   | Num sz \<Rightarrow>
                       if sz = 0 \<or> sz > 32
                       then Inl (INVALID_ARGUMENT ''invalid bytes length'')
                       else Inr (FixedBytesCoder (Num sz) nm))
              | None \<Rightarrow> Inl (INVALID_ARGUMENT ''invalid type'')))"
  by (simp add: namedBaseTypes_def)

lemma decimal_256: "decimal ''256'' = 256"
  by (simp add: decimal_def digitVal_def)

lemma decimal_leading_zeros: "decimal (replicate k (CHR ''0'') @ ds) = decimal ds"
proof -
  have "foldl (\<lambda>a c. 10 * a + digitVal c) 0 (replicate k (CHR ''0'')) = 0"
    by (induction k) (simp_all add: digitVal_def)
  then show ?thesis by (simp add: decimal_def)
qed

lemma getCoders_list_all2:
  "getCoders ps = Inr cs \<longleftrightarrow> list_all2 (\<lambda>p c. getCoder p = Inr c) ps cs"
proof (induction ps arbitrary: cs)
  case Nil
  show ?case by auto
next
  case (Cons p ps)
  show ?case
    by (cases cs; cases "getCoder p"; cases "getCoders ps")
       (auto simp: Cons.IH [symmetric])
qed

text \<open>
  Claim C3. Resolution rule 2, applied in priority order, that is to a descriptor whose base
  kind is none of those of the \<open>switch\<close>: a type spelled \<open>uint\<close> or \<open>int\<close> followed by
  decimal digits resolves to the number coder of the bit width given by the digits (256 when
  there are none), signed for \<open>int\<close>, and fails with an invalid-argument error exactly when
  that width is zero, above 256 or not a multiple of 8. The coder is built with the width in
  bytes.
\<close>

theorem getCoder_number:
  assumes "baseType p \<notin> namedBaseTypes"
    and "sign = ''uint'' \<or> sign = ''int''"
    and "list_all isDigit digits"
    and "type p = sign @ digits"
  shows "getCoder p =
     (let width = (if digits = [] then 256 else decimal digits) in
      if 0 < width \<and> width \<le> 256 \<and> width mod 8 = 0
      then Inr (NumberCoder (width div 8) (sign = ''int'') (name p))
      else Inl (INVALID_ARGUMENT (''invalid '' @ sign @ '' bit length'')))"
proof (cases p)
  case (ParamType nm ty bt alen ach comps)
  with assms have bt: "bt \<notin> namedBaseTypes" and ty: "ty = sign @ digits" by simp_all
  from assms(2,3) ty have m: "paramTypeNumber ty = Some (sign, digits)"
    using paramTypeNumber_uint paramTypeNumber_int by blast
  show ?thesis
    unfolding ParamType getCoder_unnamed [OF bt] m
    by (simp add: parseInt_def decimal_256 Let_def)
qed

theorem getCoder_number_witness:
  "getCoder (ParamType ''amount'' ''uint32'' ''uint32'' 0 None None) = Inr (NumberCoder 4 False ''amount'')
   \<and> getCoder (ParamType ''amount'' ''int'' ''int'' 0 None None) = Inr (NumberCoder 32 True ''amount'')
   \<and> getCoder (ParamType ''amount'' ''uint7'' ''uint7'' 0 None None) = Inl (INVALID_ARGUMENT ''invalid uint bit length'')"
proof -
  have d: "list_all isDigit ''32''" "list_all isDigit ''''" "list_all isDigit ''7''"
    by (simp_all add: isDigit_def)
  have n: "''uint32'' \<notin> namedBaseTypes" "''int'' \<notin> namedBaseTypes" "''uint7'' \<notin> namedBaseTypes"
    by (simp_all add: namedBaseTypes_def)
  have 1: "getCoder (ParamType ''amount'' ''uint32'' ''uint32'' 0 None None) = Inr (NumberCoder 4 False ''amount'')"
    using getCoder_number [of "ParamType ''amount'' ''uint32'' ''uint32'' 0 None None" "''uint''" "''32''"] d n
    by (simp add: decimal_def digitVal_def)
  have 2: "getCoder (ParamType ''amount'' ''int'' ''int'' 0 None None) = Inr (NumberCoder 32 True ''amount'')"
    using getCoder_number [of "ParamType ''amount'' ''int'' ''int'' 0 None None" "''int''" "''''"] d n
    by simp
  have 3: "getCoder (ParamType ''amount'' ''uint7'' ''uint7'' 0 None None) = Inl (INVALID_ARGUMENT ''invalid uint bit length'')"
    using getCoder_number [of "ParamType ''amount'' ''uint7'' ''uint7'' 0 None None" "''uint''" "''7''"] d n
    by (simp add: decimal_def digitVal_def)
  from 1 2 3 show ?thesis by simp
qed

text \<open>
  Claim C4. Resolution rule 3, applied in priority order: a type spelled \<open>bytes\<close> followed by at
  least one decimal digit resolves to the fixed-size byte coder of that size, and fails with
  an invalid-argument error exactly when the size is outside \<open>[1, 32]\<close>.
\<close>

theorem getCoder_fixed_bytes:
  assumes "baseType p \<notin> namedBaseTypes"
    and "digits \<noteq> []"
    and "list_all isDigit digits"
    and "type p = ''bytes'' @ digits"
  shows "getCoder p =
     (if 1 \<le> decimal digits \<and> decimal digits \<le> 32
      then Inr (FixedBytesCoder (Num (decimal digits)) (name p))
      else Inl (INVALID_ARGUMENT ''invalid bytes length''))"
proof (cases p)
  case (ParamType nm ty bt alen ach comps)
  with assms have bt: "bt \<notin> namedBaseTypes" and ty: "ty = ''bytes'' @ digits" by simp_all
  have m: "paramTypeNumber ty = None" "paramTypeBytes ty = Some digits"
    unfolding ty using assms(3) paramTypeNumber_bytes paramTypeBytes_bytes by blast+
  show ?thesis
    unfolding ParamType getCoder_unnamed [OF bt] m
    using assms(2) by (auto simp: parseInt_def)
qed

theorem getCoder_fixed_bytes_witness:
  "getCoder (ParamType ''h'' ''bytes32'' ''bytes32'' 0 None None) = Inr (FixedBytesCoder (Num 32) ''h'')
   \<and> getCoder (ParamType ''h'' ''bytes33'' ''bytes33'' 0 None None) = Inl (INVALID_ARGUMENT ''invalid bytes length'')
   \<and> getCoder (ParamType ''h'' ''bytes0'' ''bytes0'' 0 None None) = Inl (INVALID_ARGUMENT ''invalid bytes length'')"
proof -
  have d: "list_all isDigit ''32''" "list_all isDigit ''33''" "list_all isDigit ''0''"
    by (simp_all add: isDigit_def)
  have n: "''bytes32'' \<notin> namedBaseTypes" "''bytes33'' \<notin> namedBaseTypes" "''bytes0'' \<notin> namedBaseTypes"
    by (simp_all add: namedBaseTypes_def)
  have 1: "getCoder (ParamType ''h'' ''bytes32'' ''bytes32'' 0 None None) = Inr (FixedBytesCoder (Num 32) ''h'')"
    using getCoder_fixed_bytes [of "ParamType ''h'' ''bytes32'' ''bytes32'' 0 None None" "''32''"] d n
    by (simp add: decimal_def digitVal_def)
  have 2: "getCoder (ParamType ''h'' ''bytes33'' ''bytes33'' 0 None None) = Inl (INVALID_ARGUMENT ''invalid bytes length'')"
    using getCoder_fixed_bytes [of "ParamType ''h'' ''bytes33'' ''bytes33'' 0 None None" "''33''"] d n
    by (simp add: decimal_def digitVal_def)
  have 3: "getCoder (ParamType ''h'' ''bytes0'' ''bytes0'' 0 None None) = Inl (INVALID_ARGUMENT ''invalid bytes length'')"
    using getCoder_fixed_bytes [of "ParamType ''h'' ''bytes0'' ''bytes0'' 0 None None" "''0''"] d n
    by (simp add: decimal_def digitVal_def)
  from 1 2 3 show ?thesis by simp
qed

text \<open>
  A descriptor with none of the base kinds of the \<open>switch\<close> whose type matches neither
  expression fails with the invalid-type error.
\<close>

lemma getCoder_invalid_type:
  assumes "bt \<notin> namedBaseTypes" and "paramTypeNumber ty = None" and "paramTypeBytes ty = None"
  shows "getCoder (ParamType nm ty bt alen ach comps) = Inl (INVALID_ARGUMENT ''invalid type'')"
  unfolding getCoder_unnamed [OF assms(1)] using assms(2,3) by simp

text \<open>What a match of either expression says about the type.\<close>

lemma paramTypeNumber_Some:
  assumes "paramTypeNumber ty = Some (sign, digits)"
  shows "(sign = ''uint'' \<or> sign = ''int'') \<and> list_all isDigit digits \<and> ty = sign @ digits"
proof (cases "take 4 ty = ''uint'' \<and> list_all isDigit (drop 4 ty)")
  case True
  with assms have s: "sign = ''uint''" and d: "digits = drop 4 ty"
    by (simp_all add: paramTypeNumber_def)
  have "take 4 ty @ drop 4 ty = ty" by (rule append_take_drop_id)
  with True s d show ?thesis by simp
next
  case False
  with assms have t: "take 3 ty = ''int''" and l: "list_all isDigit (drop 3 ty)"
    and s: "sign = ''int''" and d: "digits = drop 3 ty"
    by (auto simp: paramTypeNumber_def split: if_splits)
  have "take 3 ty @ drop 3 ty = ty" by (rule append_take_drop_id)
  with t l s d show ?thesis by simp
qed

lemma paramTypeBytes_Some:
  assumes "paramTypeBytes ty = Some digits"
  shows "list_all isDigit digits \<and> ty = ''bytes'' @ digits"
proof -
  from assms have t: "take 5 ty = ''bytes''" and l: "list_all isDigit (drop 5 ty)"
    and d: "digits = drop 5 ty"
    by (auto simp: paramTypeBytes_def split: if_splits)
  have "take 5 ty @ drop 5 ty = ty" by (rule append_take_drop_id)
  with t l d show ?thesis by simp
qed

text \<open>
  Claim C5. A descriptor of a plain type has its spelling as base kind (arrays and tuples have
  the base kinds \<open>array\<close> and \<open>tuple\<close>). When that base kind is none of those of the
  \<open>switch\<close> and the spelling is neither \<open>uint\<close> or \<open>int\<close> followed by digits nor
  \<open>bytes\<close> followed by at least one digit, resolution fails with the invalid-type error,
  an invalid-argument error, and returns no coder.
\<close>

theorem getCoder_invalid_type_plain:
  assumes "baseType p = type p"
    and "baseType p \<notin> namedBaseTypes"
    and "\<not> (\<exists>sign digits. (sign = ''uint'' \<or> sign = ''int'') \<and> list_all isDigit digits
              \<and> type p = sign @ digits)"
    and "\<not> (\<exists>digits. digits \<noteq> [] \<and> list_all isDigit digits \<and> type p = ''bytes'' @ digits)"
  shows "getCoder p = Inl (INVALID_ARGUMENT ''invalid type'')"
proof (cases p)
  case (ParamType nm ty bt alen ach comps)
  with assms have bt: "bt \<notin> namedBaseTypes" and eq: "bt = ty" by simp_all
  have n: "paramTypeNumber ty = None"
  proof (cases "paramTypeNumber ty")
    case None
    then show ?thesis .
  next
    case (Some m)
    obtain sign digits where "m = (sign, digits)" by (cases m)
    with Some paramTypeNumber_Some [of ty sign digits] assms(3) ParamType
    show ?thesis by auto
  qed
  have b: "paramTypeBytes ty = None"
  proof (cases "paramTypeBytes ty")
    case None
    then show ?thesis .
  next
    case (Some digits)
    from paramTypeBytes_Some [OF Some] have l: "list_all isDigit digits"
      and t: "ty = ''bytes'' @ digits" by simp_all
    show ?thesis
    proof (cases "digits = []")
      case True
      with t eq have "bt = ''bytes''" by simp
      with bt show ?thesis by (simp add: namedBaseTypes_def)
    next
      case False
      with l t assms(4) ParamType show ?thesis by auto
    qed
  qed
  show ?thesis
    unfolding ParamType by (rule getCoder_invalid_type [OF bt n b])
qed

theorem getCoder_invalid_type_plain_witness:
  "getCoder (ParamType ''x'' ''fixed128x18'' ''fixed128x18'' 0 None None)
     = Inl (INVALID_ARGUMENT ''invalid type'')
   \<and> getCoder (ParamType ''x'' ''byte'' ''byte'' 0 None None)
     = Inl (INVALID_ARGUMENT ''invalid type'')"
proof -
  let ?p = "ParamType ''x'' ''fixed128x18'' ''fixed128x18'' 0 None None"
  let ?q = "ParamType ''x'' ''byte'' ''byte'' 0 None None"
  have n: "baseType ?p \<notin> namedBaseTypes" "baseType ?q \<notin> namedBaseTypes"
    by (simp_all add: namedBaseTypes_def)
  have e: "baseType ?p = type ?p" "baseType ?q = type ?q" by simp_all
  have u: "\<not> (\<exists>sign digits. (sign = ''uint'' \<or> sign = ''int'') \<and> list_all isDigit digits
              \<and> type ?p = sign @ digits)"
    "\<not> (\<exists>sign digits. (sign = ''uint'' \<or> sign = ''int'') \<and> list_all isDigit digits
              \<and> type ?q = sign @ digits)"
    by auto
  have f: "\<not> (\<exists>digits. digits \<noteq> [] \<and> list_all isDigit digits \<and> type ?p = ''bytes'' @ digits)"
    "\<not> (\<exists>digits. digits \<noteq> [] \<and> list_all isDigit digits \<and> type ?q = ''bytes'' @ digits)"
    by auto
  from getCoder_invalid_type_plain [OF e(1) n(1) u(1) f(1)]
    getCoder_invalid_type_plain [OF e(2) n(2) u(2) f(2)]
  show ?thesis by blast
qed

text \<open>
  The expression for fixed-size bytes also accepts the empty suffix. The type \<open>bytes\<close> reaches
  it only under a base kind other than \<open>bytes\<close>, which no plain descriptor has; there the
  size is \<open>NaN\<close> and both tests on it are false.
\<close>

lemma getCoder_bare_bytes_unnamed:
  "getCoder (ParamType ''data'' ''bytes'' ''bytes32'' 0 None None) = Inr (FixedBytesCoder NaN ''data'')"
  by (simp add: paramTypeNumber_def paramTypeBytes_def parseInt_def)

text \<open>
  Claim C7. A descriptor whose base kind is \<open>address\<close>, \<open>bool\<close>, \<open>string\<close>, \<open>bytes\<close>,
  \<open>tuple\<close>, \<open>array\<close> or empty resolves to the coder of that kind whatever its type spelling
  \<open>ty\<close> is: no pattern is tried on it. An array resolves its element type and a tuple each of
  its components, in order; a failure of a child is the failure of the whole.
\<close>

theorem getCoder_named_first:
  "(bt = ''address'' \<longrightarrow> getCoder (ParamType nm ty bt alen ach comps) = Inr (AddressCoder nm))
   \<and> (bt = ''bool'' \<longrightarrow> getCoder (ParamType nm ty bt alen ach comps) = Inr (BooleanCoder nm))
   \<and> (bt = ''string'' \<longrightarrow> getCoder (ParamType nm ty bt alen ach comps) = Inr (StringCoder nm))
   \<and> (bt = ''bytes'' \<longrightarrow> getCoder (ParamType nm ty bt alen ach comps) = Inr (BytesCoder nm))
   \<and> (bt = [] \<longrightarrow> getCoder (ParamType nm ty bt alen ach comps) = Inr (NullCoder nm))
   \<and> (bt = ''array'' \<longrightarrow>
        (\<forall>child. ach = Some child \<longrightarrow>
           (\<forall>c. getCoder child = Inr c \<longrightarrow>
                getCoder (ParamType nm ty bt alen ach comps) = Inr (ArrayCoder c alen nm))
         \<and> (\<forall>e. getCoder child = Inl e \<longrightarrow>
                getCoder (ParamType nm ty bt alen ach comps) = Inl e)))
   \<and> (bt = ''tuple'' \<longrightarrow>
        (\<forall>cs. comps = Some cs \<longrightarrow>
           (\<forall>coders. list_all2 (\<lambda>q c. getCoder q = Inr c) cs coders \<longrightarrow>
                getCoder (ParamType nm ty bt alen ach comps) = Inr (TupleCoder coders nm))
         \<and> (\<forall>e. getCoders cs = Inl e \<longrightarrow>
                getCoder (ParamType nm ty bt alen ach comps) = Inl e)))"
proof -
  have tuple: "getCoder (ParamType nm ty ''tuple'' alen ach (Some cs)) = Inr (TupleCoder coders nm)"
    if "list_all2 (\<lambda>q c. getCoder q = Inr c) cs coders" for cs coders
  proof -
    from that have "getCoders cs = Inr coders" by (simp only: getCoders_list_all2)
    then show ?thesis by simp
  qed
  show ?thesis
    by (intro conjI impI allI) (simp_all add: tuple del: getCoder.simps, simp_all)
qed

theorem getCoder_named_first_witness:
  "getCoder (ParamType ''to'' ''uint8'' ''address'' 0 None None) = Inr (AddressCoder ''to'')
   \<and> getCoder (ParamType ''xs'' ''uint8[]'' ''array'' (- 1)
        (Some (ParamType ''x'' ''uint8'' ''uint8'' 0 None None)) None)
      = Inr (ArrayCoder (NumberCoder 1 False ''x'') (- 1) ''xs'')
   \<and> getCoder (ParamType ''t'' ''tuple'' ''tuple'' 0 None
        (Some [ParamType ''a'' ''bool'' ''bool'' 0 None None,
               ParamType ''b'' ''bytes4'' ''bytes4'' 0 None None]))
      = Inr (TupleCoder [BooleanCoder ''a'', FixedBytesCoder (Num 4) ''b''] ''t'')"
proof -
  let ?x = "ParamType ''x'' ''uint8'' ''uint8'' 0 None None"
  let ?a = "ParamType ''a'' ''bool'' ''bool'' 0 None None"
  let ?b = "ParamType ''b'' ''bytes4'' ''bytes4'' 0 None None"
  have x: "getCoder ?x = Inr (NumberCoder 1 False ''x'')"
    by (simp add: paramTypeNumber_def parseInt_def decimal_def digitVal_def isDigit_def)
  have b: "getCoder ?b = Inr (FixedBytesCoder (Num 4) ''b'')"
    by (simp add: paramTypeNumber_def paramTypeBytes_def parseInt_def decimal_def digitVal_def
        isDigit_def)
  have ab: "list_all2 (\<lambda>q c. getCoder q = Inr c) [?a, ?b]
              [BooleanCoder ''a'', FixedBytesCoder (Num 4) ''b'']"
    using b by (simp del: getCoder.simps) simp
  have 1: "getCoder (ParamType ''to'' ''uint8'' ''address'' 0 None None) = Inr (AddressCoder ''to'')"
    using getCoder_named_first [of "''address''" "''to''" "''uint8''" 0 None None]
    by (simp del: getCoder.simps)
  have 2: "getCoder (ParamType ''xs'' ''uint8[]'' ''array'' (- 1) (Some ?x) None)
             = Inr (ArrayCoder (NumberCoder 1 False ''x'') (- 1) ''xs'')"
    using getCoder_named_first [of "''array''" "''xs''" "''uint8[]''" "- 1" "Some ?x" None] x
    by (simp del: getCoder.simps)
  have 3: "getCoder (ParamType ''t'' ''tuple'' ''tuple'' 0 None (Some [?a, ?b]))
             = Inr (TupleCoder [BooleanCoder ''a'', FixedBytesCoder (Num 4) ''b''] ''t'')"
    using getCoder_named_first [of "''tuple''" "''t''" "''tuple''" 0 None "Some [?a, ?b]"] ab
    by (simp del: getCoder.simps)
  from 1 2 3 show ?thesis by simp
qed

text \<open>
  Claim C9. A tuple descriptor without a components list resolves to a tuple coder with no
  child coders, exactly as one with an empty components list.
\<close>

theorem getCoder_tuple_absent_components:
  "getCoder (ParamType nm ty ''tuple'' alen ach None) = Inr (TupleCoder [] nm)
   \<and> getCoder (ParamType nm ty ''tuple'' alen ach None)
       = getCoder (ParamType nm ty ''tuple'' alen ach (Some []))"
  by simp

text \<open>
  Claim C10. Leading zeros in the numeric suffix do not matter: \<open>k\<close> zeros before the digits
  \<open>ds\<close> give the same result as the digits alone, and when the value of the digits meets the
  width rules the result is the coder of that value (for instance \<open>uint032\<close> and \<open>uint32\<close>,
  \<open>bytes01\<close> and \<open>bytes1\<close>). The base kinds are those of rules 2 and 3.
\<close>

theorem getCoder_leading_zeros:
  assumes "bt \<notin> namedBaseTypes" and "bt' \<notin> namedBaseTypes"
    and "list_all isDigit ds" and "ds \<noteq> []"
    and "pre \<in> {''uint'', ''int'', ''bytes''}"
  shows "getCoder (ParamType nm (pre @ replicate k (CHR ''0'') @ ds) bt alen ach comps)
           = getCoder (ParamType nm (pre @ ds) bt' alen ach comps)
       \<and> (pre \<noteq> ''bytes'' \<and> 0 < decimal ds \<and> decimal ds \<le> 256 \<and> decimal ds mod 8 = 0 \<longrightarrow>
            getCoder (ParamType nm (pre @ replicate k (CHR ''0'') @ ds) bt alen ach comps)
              = Inr (NumberCoder (decimal ds div 8) (pre = ''int'') nm))
       \<and> (pre = ''bytes'' \<and> 1 \<le> decimal ds \<and> decimal ds \<le> 32 \<longrightarrow>
            getCoder (ParamType nm (pre @ replicate k (CHR ''0'') @ ds) bt alen ach comps)
              = Inr (FixedBytesCoder (Num (decimal ds)) nm))"
proof -
  let ?zs = "replicate k (CHR ''0'') @ ds"
  have "list_all isDigit (replicate k (CHR ''0''))"
    by (induction k) (simp_all add: isDigit_def)
  then have zs: "list_all isDigit ?zs" "?zs \<noteq> []" "decimal ?zs = decimal ds"
    using assms(3,4) by (simp_all add: decimal_leading_zeros)
  show ?thesis
  proof (cases "pre = ''bytes''")
    case True
    have "getCoder (ParamType nm (''bytes'' @ ?zs) bt alen ach comps) =
            (if 1 \<le> decimal ds \<and> decimal ds \<le> 32
             then Inr (FixedBytesCoder (Num (decimal ds)) nm)
             else Inl (INVALID_ARGUMENT ''invalid bytes length''))"
      using getCoder_fixed_bytes [of "ParamType nm (''bytes'' @ ?zs) bt alen ach comps" ?zs]
        assms(1,4) zs by (simp del: getCoder.simps)
    moreover have "getCoder (ParamType nm (''bytes'' @ ds) bt' alen ach comps) =
            (if 1 \<le> decimal ds \<and> decimal ds \<le> 32
             then Inr (FixedBytesCoder (Num (decimal ds)) nm)
             else Inl (INVALID_ARGUMENT ''invalid bytes length''))"
      using getCoder_fixed_bytes [of "ParamType nm (''bytes'' @ ds) bt' alen ach comps" ds]
        assms(2,3,4) by (simp del: getCoder.simps)
    ultimately show ?thesis using True by (simp del: getCoder.simps)
  next
    case False
    with assms(5) have pre: "pre = ''uint'' \<or> pre = ''int''" by auto
    have "getCoder (ParamType nm (pre @ ?zs) bt alen ach comps) =
            (if 0 < decimal ds \<and> decimal ds \<le> 256 \<and> decimal ds mod 8 = 0
             then Inr (NumberCoder (decimal ds div 8) (pre = ''int'') nm)
             else Inl (INVALID_ARGUMENT (''invalid '' @ pre @ '' bit length'')))"
      using getCoder_number [of "ParamType nm (pre @ ?zs) bt alen ach comps" pre ?zs]
        assms(1,4) zs pre by (simp add: Let_def del: getCoder.simps)
    moreover have "getCoder (ParamType nm (pre @ ds) bt' alen ach comps) =
            (if 0 < decimal ds \<and> decimal ds \<le> 256 \<and> decimal ds mod 8 = 0
             then Inr (NumberCoder (decimal ds div 8) (pre = ''int'') nm)
             else Inl (INVALID_ARGUMENT (''invalid '' @ pre @ '' bit length'')))"
      using getCoder_number [of "ParamType nm (pre @ ds) bt' alen ach comps" pre ds]
        assms(2,3,4) pre by (simp add: Let_def del: getCoder.simps)
    ultimately show ?thesis using False by (simp del: getCoder.simps)
  qed
qed

theorem getCoder_leading_zeros_witness:
  "getCoder (ParamType ''n'' ''uint032'' ''uint032'' 0 None None)
     = getCoder (ParamType ''n'' ''uint32'' ''uint32'' 0 None None)
   \<and> getCoder (ParamType ''n'' ''uint032'' ''uint032'' 0 None None) = Inr (NumberCoder 4 False ''n'')
   \<and> getCoder (ParamType ''n'' ''bytes01'' ''bytes01'' 0 None None)
     = getCoder (ParamType ''n'' ''bytes1'' ''bytes1'' 0 None None)
   \<and> getCoder (ParamType ''n'' ''bytes01'' ''bytes01'' 0 None None) = Inr (FixedBytesCoder (Num 1) ''n'')"
proof -
  have n: "''uint032'' \<notin> namedBaseTypes" "''uint32'' \<notin> namedBaseTypes"
    "''bytes01'' \<notin> namedBaseTypes" "''bytes1'' \<notin> namedBaseTypes"
    by (simp_all add: namedBaseTypes_def)
  have d: "list_all isDigit ''32''" "list_all isDigit ''1''"
    by (simp_all add: isDigit_def)
  have v: "decimal ''32'' = 32" "decimal ''1'' = 1"
    by (simp_all add: decimal_def digitVal_def)
  have 1: "getCoder (ParamType ''n'' ''uint032'' ''uint032'' 0 None None)
             = getCoder (ParamType ''n'' ''uint32'' ''uint32'' 0 None None)
         \<and> getCoder (ParamType ''n'' ''uint032'' ''uint032'' 0 None None)
             = Inr (NumberCoder 4 False ''n'')"
    using getCoder_leading_zeros [of "''uint032''" "''uint32''" "''32''" "''uint''" "''n''" "Suc 0"
        0 None None] n d v
    by (auto simp del: getCoder.simps)
  have 2: "getCoder (ParamType ''n'' ''bytes01'' ''bytes01'' 0 None None)
             = getCoder (ParamType ''n'' ''bytes1'' ''bytes1'' 0 None None)
         \<and> getCoder (ParamType ''n'' ''bytes01'' ''bytes01'' 0 None None)
             = Inr (FixedBytesCoder (Num 1) ''n'')"
    using getCoder_leading_zeros [of "''bytes01''" "''bytes1''" "''1''" "''bytes''" "''n''" "Suc 0"
        0 None None] n d v
    by (auto simp del: getCoder.simps)
  from 1 2 show ?thesis by blast
qed

subsection \<open>The entry points\<close>

lemma length_toBytesBE [simp]: "length (toBytesBE k n) = k"
  by (induction k arbitrary: n) simp_all


lemma toWord_length: "toWord n = Inr w \<Longrightarrow> length w = 32"
  by (auto simp: toWord_def split: if_splits)








text \<open>
  Claim C6. For lists of equal length whose types resolve to \<open>coders\<close>, in order, \<open>encode\<close>
  is the encoding of the values by the tuple coder over \<open>coders\<close> named \<open>_\<close>, on a writer of
  word size 32, and \<open>decode\<close> is the decoding by the same tuple coder on a reader of word
  size 32 with the hook of the dispatcher.
\<close>

theorem encode_decode_synthetic_tuple:
  assumes "length types = length values"
    and "list_all2 (\<lambda>t c. getCoder t = Inr c) types coders"
  shows "encode coderEncode types values = coderEncode 32 (TupleCoder coders ''_'') values
       \<and> decode coderDecode this types input
           = coderDecode 32 (coerceFunc this) (TupleCoder coders ''_'') input"
  using assms by (simp add: encode_def decode_def getWordSize_def getCoders_list_all2 [symmetric])

theorem encode_decode_synthetic_tuple_witness:
  "encode specEncode [ParamType ''a'' ''uint8'' ''uint8'' 0 None None] [VNumber 7]
     = specEncode 32 (TupleCoder [NumberCoder 1 False ''a''] ''_'') [VNumber 7]
   \<and> decode specDecode \<lparr>coerceFunc = None\<rparr> [ParamType ''a'' ''uint8'' ''uint8'' 0 None None] [7]
     = specDecode 32 None (TupleCoder [NumberCoder 1 False ''a''] ''_'') [7]"
proof -
  have g: "getCoder (ParamType ''a'' ''uint8'' ''uint8'' 0 None None) = Inr (NumberCoder 1 False ''a'')"
    by (simp add: paramTypeNumber_def parseInt_def decimal_def digitVal_def isDigit_def)
  then have l: "list_all2 (\<lambda>t c. getCoder t = Inr c) [ParamType ''a'' ''uint8'' ''uint8'' 0 None None]
             [NumberCoder 1 False ''a'']"
    by (simp del: getCoder.simps)
  have e: "length [ParamType ''a'' ''uint8'' ''uint8'' 0 None None] = length [VNumber 7]"
    by simp
  show ?thesis
    using encode_decode_synthetic_tuple [OF e l, where coderEncode = specEncode
        and coderDecode = specDecode and this = "\<lparr>coerceFunc = None\<rparr>" and input = "[7]"]
    by (simp del: getCoder.simps)
qed

section \<open>Properties of the encoding\<close>

subsection \<open>Bytes and words\<close>






lemma padding_aligned: "32 dvd n + padding n"
proof -
  define q r where "q = n div 32" and "r = n mod 32"
  have n: "n = 32 * q + r" and r: "r < 32"
    by (simp_all add: q_def r_def)
  have p: "padding n = (if r = 0 then 0 else 32 - r)"
    using r by (simp add: padding_def r_def [symmetric])
  have "n + padding n = (if r = 0 then 32 * q else 32 * (q + 1))"
    unfolding p using n r by simp
  then show ?thesis by simp
qed

subsection \<open>Alignment\<close>

lemma getCoder_wf:
  "getCoder p = Inr c \<Longrightarrow> wfCoder c"
  "getCoders ps = Inr cs \<Longrightarrow> list_all wfCoder cs"
proof (induction p and ps arbitrary: c and cs rule: getCoder_getCoders.induct)
  case (1 nm ty bt alen ach comps)
  show ?case
  proof (cases "bt \<in> namedBaseTypes")
    case True
    with 1 show ?thesis
      by (auto simp: namedBaseTypes_def split: if_splits option.splits sum.splits)
  next
    case False
    have "1 \<le> sz div 8 \<and> sz div 8 \<le> 32" if "sz \<noteq> 0" "sz \<le> 256" "sz mod 8 = 0" for sz :: nat
      using that by presburger
    with "1.prems" show ?thesis
      unfolding getCoder_unnamed [OF False]
      by (auto split: option.splits jsnum.splits if_splits prod.splits)
  qed
next
  case 2
  then show ?case by simp
next
  case (3 p ps)
  then show ?case by (auto split: sum.splits)
qed

lemma packHeads_length: "packHeads off ms = Inr hs \<Longrightarrow> length hs = headSize ms"
  by (induction off ms arbitrary: hs rule: packHeads.induct)
     (auto simp: toWord_length split: sum.splits if_splits)

lemma headSize_aligned:
  "list_all (\<lambda>m. 32 dvd length (snd m)) ms \<Longrightarrow> 32 dvd headSize ms"
  by (induction ms rule: headSize.induct) auto

lemma packTails_Cons:
  "packTails ((dyn, bs) # ms) = (if dyn then bs @ packTails ms else packTails ms)"
  by (simp add: packTails_def)

lemma packTails_Nil: "packTails [] = []"
  by (simp add: packTails_def)

lemma packTails_aligned:
  "list_all (\<lambda>m. 32 dvd length (snd m)) ms \<Longrightarrow> 32 dvd length (packTails ms)"
  by (induction ms rule: headSize.induct) (auto simp: packTails_Cons packTails_Nil)

lemma pack_aligned:
  assumes "list_all (\<lambda>m. 32 dvd length (snd m)) ms" and "pack ms = Inr bs"
  shows "32 dvd length bs"
proof -
  from assms(2) obtain hs where hs: "packHeads (headSize ms) ms = Inr hs"
    and bs: "bs = hs @ packTails ms"
    by (auto simp: pack_def split: sum.splits)
  have "length hs = headSize ms" using hs by (rule packHeads_length)
  then show ?thesis
    using headSize_aligned [OF assms(1)] packTails_aligned [OF assms(1)] bs by simp
qed

lemma encodeDynamicBytes_length:
  "encodeDynamicBytes bs = Inr out \<Longrightarrow> length out = 32 + (length bs + padding (length bs))"
  by (auto simp: encodeDynamicBytes_def appendPadded_def appendWord_def toWord_length
      split: sum.splits)

lemma encodeDynamicBytes_aligned: "encodeDynamicBytes bs = Inr out \<Longrightarrow> 32 dvd length out"
  using padding_aligned [of "length bs"] by (simp add: encodeDynamicBytes_length)

lemma encodeNumber_length: "w \<le> 32 \<Longrightarrow> length (encodeNumber w i) = 32"
  by (simp add: encodeNumber_def)

lemma list_all_replicate: "P x \<Longrightarrow> list_all P (replicate n x)"
  by (induction n) simp_all

lemma encodeC_aligned:
  "wfCoder c \<Longrightarrow> encodeC c v = Inr bs \<Longrightarrow> 32 dvd length bs"
  "list_all wfCoder cs \<Longrightarrow> encodeAll cs vs = Inr ms \<Longrightarrow>
     list_all (\<lambda>m. 32 dvd length (snd m)) ms"
proof (induction c v and cs vs arbitrary: bs and ms rule: encodeC_encodeAll.induct)
  case (1 nm v)
  then show ?case by (auto split: Value.splits if_splits)
next
  case (2 nm v)
  then show ?case by (auto simp: toWord_length split: Value.splits)
next
  case (3 w sg nm v)
  then show ?case by (auto simp: encodeNumber_length split: Value.splits if_splits)
next
  case (4 nm v)
  then show ?case by simp
next
  case (5 n nm v)
  then show ?case by (auto split: Value.splits if_splits)
next
  case (6 nm v)
  then show ?case by (auto split: Value.splits)
next
  case (7 nm v)
  then show ?case by (auto simp: encodeDynamicBytes_aligned split: Value.splits)
next
  case (8 nm v)
  then show ?case by (auto simp: encodeDynamicBytes_aligned split: Value.splits)
next
  case (9 c len nm v)
  from "9.prems" obtain vs where v: "v = VArray vs"
    by (auto split: Value.splits)
  from "9.prems" have wf: "list_all wfCoder (replicate (length vs) c)"
    by (simp add: list_all_replicate)
  show ?case
  proof (cases "len = - 1")
    case True
    with "9.prems" v obtain w ms out where w: "toWord (length vs) = Inr w"
      and ms: "encodeAll (replicate (length vs) c) vs = Inr ms"
      and out: "pack ms = Inr out" and bs: "bs = w @ out"
      by (auto split: sum.splits)
    have "list_all (\<lambda>m. 32 dvd length (snd m)) ms"
      using "9.IH"(1) [OF v True w wf ms] .
    then have "32 dvd length out" using out by (rule pack_aligned)
    then show ?thesis using bs toWord_length [OF w] by simp
  next
    case False
    with "9.prems" v obtain ms where len: "int (length vs) = len"
      and ms: "encodeAll (replicate (length vs) c) vs = Inr ms"
      and out: "pack ms = Inr bs"
      by (auto split: sum.splits if_splits)
    have "list_all (\<lambda>m. 32 dvd length (snd m)) ms"
      using "9.IH"(2) [OF v False len wf ms] .
    then show ?thesis using out by (rule pack_aligned)
  qed
next
  case (10 cs nm v)
  from "10.prems" obtain vs ms where v: "v = VArray vs"
    and ms: "encodeAll cs vs = Inr ms" and out: "pack ms = Inr bs"
    by (auto split: Value.splits sum.splits)
  have "list_all (\<lambda>m. 32 dvd length (snd m)) ms"
    using "10.IH" [OF v _ ms] "10.prems"(1) by simp
  then show ?case using out by (rule pack_aligned)
next
  case 11
  then show ?case by simp
next
  case (12 c cs v vs)
  then show ?case by (auto split: sum.splits)
qed simp_all

lemma toBytesBE_numeral:
  "toBytesBE (numeral k) n = toBytesBE (pred_numeral k) (n div 256) @ [of_nat (n mod 256)]"
  by (subst numeral_eq_Suc [of k]) (simp only: toBytesBE.simps)

lemma replicate_numeral: "replicate (numeral k) x = x # replicate (pred_numeral k) x"
  by (subst numeral_eq_Suc [of k]) (simp only: replicate.simps)

lemmas eval_simps =
  encode_def decode_def specEncode_def specDecode_def getWordSize_def
  paramTypeNumber_def paramTypeBytes_def parseInt_def decimal_def digitVal_def isDigit_def
  toWord_def toBytesBE_numeral replicate_numeral pack_def packTails_def
  encodeDynamicBytes_def appendPadded_def appendWord_def padding_def toByte_def
  inRange_def encodeNumber_def

text \<open>
  Claim C8. Whenever \<open>encode\<close> succeeds, the length of the buffer it returns is a multiple
  of 32: every coder that resolution builds writes whole words, and the head and tail regions
  of a composite are made of such encodings and of offset words.
\<close>

theorem encode_aligned:
  "encode specEncode types values = Inr bs \<Longrightarrow> length bs mod 32 = 0"
proof -
  assume e: "encode specEncode types values = Inr bs"
  then obtain coders where c: "getCoders types = Inr coders"
    and b: "encodeC (TupleCoder coders ''_'') (VArray values) = Inr bs"
    by (auto simp: encode_def specEncode_def split: if_splits sum.splits)
  have "wfCoder (TupleCoder coders ''_'')"
    using getCoder_wf(2) [OF c] by simp
  then have "32 dvd length bs" using b by (rule encodeC_aligned(1))
  then show ?thesis by (simp add: dvd_eq_mod_eq_0)
qed

theorem encode_aligned_witness:
  "encode specEncode
     [ParamType ''xs'' ''uint256[]'' ''array'' (- 1)
        (Some (ParamType ''x'' ''uint256'' ''uint256'' 0 None None)) None]
     [VArray [VNumber 1, VNumber 2]]
   = Inr (replicate 31 0 @ [32] @ replicate 31 0 @ [2] @ replicate 31 0 @ [1] @ replicate 31 0 @ [2])
   \<and> length (replicate 31 0 @ [32] @ replicate 31 0 @ [2] @ replicate 31 0 @ [1]
         @ replicate 31 0 @ [2 :: byte]) mod 32 = 0"
proof -
  have e: "encode specEncode
     [ParamType ''xs'' ''uint256[]'' ''array'' (- 1)
        (Some (ParamType ''x'' ''uint256'' ''uint256'' 0 None None)) None]
     [VArray [VNumber 1, VNumber 2]]
   = Inr (replicate 31 0 @ [32] @ replicate 31 0 @ [2] @ replicate 31 0 @ [1] @ replicate 31 0 @ [2])"
    by (simp add: eval_simps)
  from encode_aligned [OF e] e show ?thesis by blast
qed

subsection \<open>Decoding an encoding\<close>















subsection \<open>Values in the domain encode\<close>







end
